theory Spec2Isabelle
  imports Complex_Main
begin

section \<open>Python strings and exceptions\<close>

text \<open>
  A Python \<open>str\<close> is modelled as a \<^typ>\<open>string\<close>: a list of characters, each read as
  the Unicode code point of the same number (U+0000 to U+00FF). The exceptions the
  modelled functions can raise are values of \<open>error\<close>; a function that can raise returns
  \<open>error + 'a\<close>, with \<open>Inl\<close> for the exception.
\<close>

datatype error = ValueError | KeyError | IndexError | OverflowError | ZeroDivisionError

text \<open>\<open>string.ascii_lowercase\<close> and \<open>string.digits\<close> of the standard library.\<close>

definition ascii_lowercase :: string where
  "ascii_lowercase = ''abcdefghijklmnopqrstuvwxyz''"

definition digits :: string where
  "digits = ''0123456789''"

text \<open>
  \<open>str.isspace\<close> on one character, which is also the class \<open>\s\<close> of \<open>re\<close> on a \<open>str\<close>
  pattern and the set \<open>str.strip\<close> removes: the code points 9 to 13, 28 to 32, 133 and 160.
\<close>

definition isspace :: "char \<Rightarrow> bool" where
  "isspace c = (of_char c \<in> {9, 10, 11, 12, 13, 28, 29, 30, 31, 32, 133, 160 :: nat})"

text \<open>
  \<open>str.lower\<close>: below U+0100 it maps each character on its own, A to Z and the
  accented capitals U+00C0 to U+00DE (the sign U+00D7 apart) to the code point 32 higher.
\<close>

definition lower_char :: "char \<Rightarrow> char" where
  "lower_char c =
     (let n = of_char c :: nat in
      if (65 \<le> n \<and> n \<le> 90) \<or> (192 \<le> n \<and> n \<le> 222 \<and> n \<noteq> 215)
      then char_of (n + 32) else c)"

definition lower :: "string \<Rightarrow> string" where
  "lower s = map lower_char s"

text \<open>\<open>str.strip()\<close> with no argument: leading and trailing whitespace goes.\<close>

definition lstrip :: "string \<Rightarrow> string" where
  "lstrip s = dropWhile isspace s"

definition rstrip :: "string \<Rightarrow> string" where
  "rstrip s = rev (dropWhile isspace (rev s))"

definition strip :: "string \<Rightarrow> string" where
  "strip s = rstrip (lstrip s)"

text \<open>
  \<open>s.split(sep, 1)\<close> for a separator of one character: the text before the first
  separator and the text after it, or the string alone when it holds no separator.
\<close>

definition split1 :: "char \<Rightarrow> string \<Rightarrow> string list" where
  "split1 sep s =
     (if sep \<in> set s
      then [takeWhile (\<lambda>c. c \<noteq> sep) s, tl (dropWhile (\<lambda>c. c \<noteq> sep) s)]
      else [s])"

text \<open>The assignment \<open>a, b = xs\<close>: a list of any other length than two raises.\<close>

fun unpack2 :: "'a list \<Rightarrow> error + ('a \<times> 'a)" where
  "unpack2 [a, b] = Inr (a, b)"
| "unpack2 _ = Inl ValueError"

section \<open>sanitize\<close>

text \<open>
  \<^verbatim>\<open>SPACES = re.compile(r'\s+')\<close> and \<^verbatim>\<open>SPACES.sub('', name)\<close>: every run of whitespace
  is replaced by the empty string, so each whitespace character is deleted.
\<close>

definition SPACES_sub_empty :: "string \<Rightarrow> string" where
  "SPACES_sub_empty name = filter (\<lambda>c. \<not> isspace c) name"

definition VALID_CODE_CHARS :: "char set" where
  "VALID_CODE_CHARS = set (ascii_lowercase @ digits)"

definition sanitize :: "string \<Rightarrow> string" where
  "sanitize name =
     strip (filter (\<lambda>c. c \<in> VALID_CODE_CHARS) (lower (strip (SPACES_sub_empty name))))"

section \<open>fetch_restaurant_data\<close>

text \<open>
  The file \<open>restaurant-data.txt\<close> is the parameter \<open>file\<close>: the lines that iterating over
  the open file yields, in order. The dictionary \<open>restaurant_data\<close> is a map; the loop
  over the lines threads it through. A line without a dot makes the unpacking of the
  split raise, which ends the loop and the call.
\<close>

fun fetch_loop ::
  "string \<Rightarrow> string \<Rightarrow> string list \<Rightarrow> (string \<rightharpoonup> string list)
    \<Rightarrow> error + (string \<rightharpoonup> string list)" where
  "fetch_loop restaurant_name sanitized_name [] restaurant_data = Inr restaurant_data"
| "fetch_loop restaurant_name sanitized_name (line # file) restaurant_data =
     (case unpack2 (split1 (CHR ''.'') line) of
        Inl e \<Rightarrow> Inl e
      | Inr (restaurant, review) \<Rightarrow>
          (let restaurant = strip restaurant;
               review = strip review
           in if sanitize restaurant = sanitized_name
              then (case restaurant_data restaurant_name of
                      None \<Rightarrow> Inl KeyError
                    | Some reviews \<Rightarrow>
                        fetch_loop restaurant_name sanitized_name file
                          (restaurant_data(restaurant_name \<mapsto> reviews @ [review])))
              else fetch_loop restaurant_name sanitized_name file restaurant_data))"

definition fetch_restaurant_data ::
  "string list \<Rightarrow> string \<Rightarrow> error + (string \<rightharpoonup> string list)" where
  "fetch_restaurant_data file restaurant_name =
     (let sanitized_name = sanitize restaurant_name;
          restaurant_data = [restaurant_name \<mapsto> []]
      in fetch_loop restaurant_name sanitized_name file restaurant_data)"

text \<open>
  The two fields of a store line in the words of the specification: the text before the
  first dot, and the trimmed text after it.
\<close>

definition name_field :: "string \<Rightarrow> string" where
  "name_field line = takeWhile (\<lambda>c. c \<noteq> CHR ''.'') line"

definition review_text :: "string \<Rightarrow> string" where
  "review_text line = strip (tl (dropWhile (\<lambda>c. c \<noteq> CHR ''.'') line))"

section \<open>Python numbers\<close>

text \<open>
  A Python \<open>int\<close> is an \<^typ>\<open>int\<close>. A Python \<open>float\<close> is an IEEE 754 binary64 number: a
  rational that the format represents, an infinity or a NaN. The sign of a zero is not
  kept apart (no operation below tells the two zeros apart, and no value of
  \<open>calculate_overall_score\<close> is negative).
\<close>

datatype pyfloat = Finite rat | PInf | NInf | NaN

datatype pynum = PyInt int | PyFloat pyfloat

text \<open>\<open>int.bit_length\<close>, for a positive integer.\<close>

fun bit_length :: "int \<Rightarrow> nat" where
  "bit_length n = (if n \<le> 0 then 0 else Suc (bit_length (n div 2)))"

text \<open>The exponent \<open>e\<close> with \<open>2\<^sup>e \<le> x < 2\<^sup>e\<^sup>+\<^sup>1\<close>, for a positive rational \<open>x\<close>.\<close>

definition floor_log2 :: "rat \<Rightarrow> int" where
  "floor_log2 x =
     (let (p, q) = quotient_of x;
          e = int (bit_length p) - int (bit_length q)
      in if 2 powi e \<le> x then e else e - 1)"

text \<open>The nearest integer, a tie going to the even one.\<close>

definition round_half_even :: "rat \<Rightarrow> int" where
  "round_half_even y =
     (let f = \<lfloor>y\<rfloor>; d = y - of_int f
      in if d < 1 / 2 then f else if 1 / 2 < d then f + 1 else if even f then f else f + 1)"

text \<open>The largest finite binary64 number.\<close>

definition DBL_MAX :: rat where
  "DBL_MAX = (2 ^ 53 - 1) * 2 ^ 971"

text \<open>
  Rounding a positive rational to the nearest number with 53 significant bits and an
  exponent of at least -1022 (below that the numbers are the multiples of \<open>2\<^sup>-\<^sup>1\<^sup>0\<^sup>7\<^sup>4\<close>), a
  tie going to the even significand; the exponent is not bounded above here.
\<close>

definition round_pos :: "rat \<Rightarrow> rat" where
  "round_pos x =
     (let e = max (floor_log2 x) (- 1022); q = 2 powi (e - 52)
      in of_int (round_half_even (x / q)) * q)"

text \<open>Rounding to binary64, to nearest, ties to even: what every operation ends with.\<close>

definition rnd :: "rat \<Rightarrow> pyfloat" where
  "rnd x =
     (if x = 0 then Finite 0
      else let y = round_pos \<bar>x\<bar>
           in if DBL_MAX < y then (if 0 < x then PInf else NInf)
              else Finite (if 0 < x then y else - y))"

definition fl_mul :: "pyfloat \<Rightarrow> pyfloat \<Rightarrow> pyfloat" where
  "fl_mul a b =
     (case (a, b) of
        (Finite x, Finite y) \<Rightarrow> rnd (x * y)
      | (NaN, _) \<Rightarrow> NaN
      | (_, NaN) \<Rightarrow> NaN
      | (Finite x, PInf) \<Rightarrow> (if x = 0 then NaN else if 0 < x then PInf else NInf)
      | (Finite x, NInf) \<Rightarrow> (if x = 0 then NaN else if 0 < x then NInf else PInf)
      | (PInf, Finite y) \<Rightarrow> (if y = 0 then NaN else if 0 < y then PInf else NInf)
      | (NInf, Finite y) \<Rightarrow> (if y = 0 then NaN else if 0 < y then NInf else PInf)
      | (PInf, PInf) \<Rightarrow> PInf
      | (NInf, NInf) \<Rightarrow> PInf
      | (PInf, NInf) \<Rightarrow> NInf
      | (NInf, PInf) \<Rightarrow> NInf)"

definition fl_add :: "pyfloat \<Rightarrow> pyfloat \<Rightarrow> pyfloat" where
  "fl_add a b =
     (case (a, b) of
        (Finite x, Finite y) \<Rightarrow> rnd (x + y)
      | (NaN, _) \<Rightarrow> NaN
      | (_, NaN) \<Rightarrow> NaN
      | (PInf, NInf) \<Rightarrow> NaN
      | (NInf, PInf) \<Rightarrow> NaN
      | (PInf, _) \<Rightarrow> PInf
      | (NInf, _) \<Rightarrow> NInf
      | (_, PInf) \<Rightarrow> PInf
      | (_, NInf) \<Rightarrow> NInf)"

text \<open>Division, for a divisor that is not zero.\<close>

definition fl_div :: "pyfloat \<Rightarrow> pyfloat \<Rightarrow> pyfloat" where
  "fl_div a b =
     (case (a, b) of
        (Finite x, Finite y) \<Rightarrow> rnd (x / y)
      | (NaN, _) \<Rightarrow> NaN
      | (_, NaN) \<Rightarrow> NaN
      | (Finite x, _) \<Rightarrow> Finite 0
      | (PInf, Finite y) \<Rightarrow> (if 0 < y then PInf else NInf)
      | (NInf, Finite y) \<Rightarrow> (if 0 < y then NInf else PInf)
      | (_, _) \<Rightarrow> NaN)"

text \<open>
  The integer square root, one bit at a time from the top: \<open>isqrt_aux k r n\<close> decides
  the \<open>k\<close> low bits of the root whose higher bits are \<open>r\<close>.
\<close>

primrec isqrt_aux :: "nat \<Rightarrow> int \<Rightarrow> int \<Rightarrow> int" where
  "isqrt_aux 0 r n = r"
| "isqrt_aux (Suc k) r n =
     (let c = r + 2 ^ k in isqrt_aux k (if c * c \<le> n then c else r) n)"

definition isqrt :: "int \<Rightarrow> int" where
  "isqrt n = isqrt_aux (bit_length n) 0 n"

text \<open>
  The square root of a positive rational, rounded as \<open>round_pos\<close> rounds: with \<open>q\<close> the
  unit of the result, the significand is the integer nearest to \<open>sqrt x / q\<close>, found by
  comparing \<open>x / q\<^sup>2\<close> with the square of the midpoint.
\<close>

definition sqrt_round_pos :: "rat \<Rightarrow> rat" where
  "sqrt_round_pos x =
     (let e = max (floor_log2 x div 2) (- 1022); q = 2 powi (e - 52);
          z = x / (q * q); n = isqrt \<lfloor>z\<rfloor>;
          h = (of_int n + 1 / 2) * (of_int n + 1 / 2);
          m = (if z < h then n else if h < z then n + 1 else if even n then n else n + 1)
      in of_int m * q)"

definition fl_sqrt :: "pyfloat \<Rightarrow> pyfloat" where
  "fl_sqrt a =
     (case a of
        Finite x \<Rightarrow>
          if x < 0 then NaN else if x = 0 then Finite 0 else Finite (sqrt_round_pos x)
      | PInf \<Rightarrow> PInf
      | NInf \<Rightarrow> NaN
      | NaN \<Rightarrow> NaN)"

text \<open>
  The decimal number with two digits after the point that is nearest to a float (a tie
  going to the even digit), and the float nearest to that.
\<close>

definition fl_round2 :: "pyfloat \<Rightarrow> pyfloat" where
  "fl_round2 a =
     (case a of
        Finite x \<Rightarrow> rnd (of_int (round_half_even (x * 100)) / 100)
      | _ \<Rightarrow> a)"

section \<open>Python operations\<close>

definition and_then :: "error + 'a \<Rightarrow> ('a \<Rightarrow> error + 'b) \<Rightarrow> error + 'b" where
  "and_then m f = (case m of Inl e \<Rightarrow> Inl e | Inr x \<Rightarrow> f x)"

text \<open>The conversion of an \<open>int\<close> to a \<open>float\<close>, which raises when the integer is too large.\<close>

definition float_of_int :: "int \<Rightarrow> error + pyfloat" where
  "float_of_int n =
     (case rnd (of_int n) of Finite y \<Rightarrow> Inr (Finite y) | _ \<Rightarrow> Inl OverflowError)"

definition as_float :: "pynum \<Rightarrow> error + pyfloat" where
  "as_float v = (case v of PyInt n \<Rightarrow> float_of_int n | PyFloat x \<Rightarrow> Inr x)"

text \<open>\<open>math.sqrt\<close>: a result that is a NaN although the argument is none raises.\<close>

definition math_sqrt :: "pynum \<Rightarrow> error + pynum" where
  "math_sqrt v =
     and_then (as_float v) (\<lambda>x.
       let r = fl_sqrt x
       in if r = NaN \<and> x \<noteq> NaN then Inl ValueError else Inr (PyFloat r))"

definition py_mul :: "pynum \<Rightarrow> pynum \<Rightarrow> error + pynum" where
  "py_mul v w =
     (case (v, w) of
        (PyInt a, PyInt b) \<Rightarrow> Inr (PyInt (a * b))
      | _ \<Rightarrow> and_then (as_float v) (\<lambda>x. and_then (as_float w) (\<lambda>y.
               Inr (PyFloat (fl_mul x y)))))"

definition py_add :: "pynum \<Rightarrow> pynum \<Rightarrow> error + pynum" where
  "py_add v w =
     (case (v, w) of
        (PyInt a, PyInt b) \<Rightarrow> Inr (PyInt (a + b))
      | _ \<Rightarrow> and_then (as_float v) (\<lambda>x. and_then (as_float w) (\<lambda>y.
               Inr (PyFloat (fl_add x y)))))"

definition py_truediv :: "pynum \<Rightarrow> pynum \<Rightarrow> error + pynum" where
  "py_truediv v w =
     (case (v, w) of
        (PyInt a, PyInt b) \<Rightarrow>
          if b = 0 then Inl ZeroDivisionError
          else (case rnd (of_int a / of_int b) of
                  Finite y \<Rightarrow> Inr (PyFloat (Finite y))
                | _ \<Rightarrow> Inl OverflowError)
      | _ \<Rightarrow> and_then (as_float v) (\<lambda>x. and_then (as_float w) (\<lambda>y.
               if y = Finite 0 then Inl ZeroDivisionError else Inr (PyFloat (fl_div x y)))))"

text \<open>
  \<open>round(v, 2)\<close>: an \<open>int\<close> is returned as it is, so is a float that is not finite; a
  finite float whose rounded decimal is beyond the largest float raises.
\<close>

definition round2 :: "pynum \<Rightarrow> error + pynum" where
  "round2 v =
     (case v of
        PyInt n \<Rightarrow> Inr (PyInt n)
      | PyFloat (Finite x) \<Rightarrow>
          (case fl_round2 (Finite x) of
             Finite y \<Rightarrow> Inr (PyFloat (Finite y))
           | _ \<Rightarrow> Inl OverflowError)
      | PyFloat x \<Rightarrow> Inr (PyFloat x))"

text \<open>\<open>xs[i]\<close> for an index that is not negative.\<close>

definition index :: "'a list \<Rightarrow> nat \<Rightarrow> error + 'a" where
  "index xs i = (if i < length xs then Inr (xs ! i) else Inl IndexError)"

text \<open>Python's \<open>==\<close> on numbers: an \<open>int\<close> and a \<open>float\<close> are equal when their values are.\<close>

definition py_eq :: "pynum \<Rightarrow> pynum \<Rightarrow> bool" where
  "py_eq v w =
     (case (v, w) of
        (PyInt a, PyInt b) \<Rightarrow> a = b
      | (PyInt a, PyFloat (Finite y)) \<Rightarrow> of_int a = y
      | (PyFloat (Finite x), PyInt b) \<Rightarrow> x = of_int b
      | (PyFloat NaN, _) \<Rightarrow> False
      | (_, PyFloat NaN) \<Rightarrow> False
      | (PyFloat x, PyFloat y) \<Rightarrow> x = y
      | _ \<Rightarrow> False)"

section \<open>calculate_overall_score\<close>

text \<open>
  The body of the loop, \<open>overall_score += sqrt(f[i] ** 2 * s[i]) * (1 / (N * sqrt(125))) * 10\<close>,
  evaluated in Python's order; each step can raise.
\<close>

definition loop_body ::
  "nat \<Rightarrow> int list \<Rightarrow> int list \<Rightarrow> pynum \<Rightarrow> nat \<Rightarrow> error + pynum" where
  "loop_body N food_scores customer_service_scores overall_score i =
     and_then (index food_scores i) (\<lambda>f.
     and_then (index customer_service_scores i) (\<lambda>s.
     and_then (math_sqrt (PyInt (f ^ 2 * s))) (\<lambda>a.
     and_then (math_sqrt (PyInt 125)) (\<lambda>b.
     and_then (py_mul (PyInt (int N)) b) (\<lambda>c.
     and_then (py_truediv (PyInt 1) c) (\<lambda>d.
     and_then (py_mul a d) (\<lambda>e.
     and_then (py_mul e (PyInt 10)) (\<lambda>t.
     py_add overall_score t))))))))"

text \<open>\<open>for i in range(N)\<close>, the variable \<open>overall_score\<close> threaded through.\<close>

fun for_range ::
  "nat list \<Rightarrow> (pynum \<Rightarrow> nat \<Rightarrow> error + pynum) \<Rightarrow> pynum \<Rightarrow> error + pynum" where
  "for_range [] body overall_score = Inr overall_score"
| "for_range (i # rest) body overall_score =
     and_then (body overall_score i) (for_range rest body)"

definition calculate_overall_score ::
  "string \<Rightarrow> int list \<Rightarrow> int list \<Rightarrow> error + (string \<rightharpoonup> pynum)" where
  "calculate_overall_score restaurant_name food_scores customer_service_scores =
     (let len_food_scores = length food_scores;
          len_customer_service_scores = length customer_service_scores;
          N = min len_food_scores len_customer_service_scores;
          overall_score = PyInt 0
      in and_then
           (for_range [0..<N] (loop_body N food_scores customer_service_scores) overall_score)
           (\<lambda>overall_score.
         and_then (round2 overall_score) (\<lambda>overall_score.
           Inr [restaurant_name \<mapsto> overall_score])))"

text \<open>
  The score in the words of the specification: with \<open>N\<close> the smaller of the two lengths,
  the sum over the first \<open>N\<close> pairs of \<open>sqrt(food\<^sup>2 * service) * (1 / (N * sqrt(125))) * 10\<close>,
  in float arithmetic and from the left, rounded to two decimal places; the sum of no
  pair is the integer 0.
\<close>

definition contribution :: "nat \<Rightarrow> int \<Rightarrow> int \<Rightarrow> pyfloat" where
  "contribution N food service =
     fl_mul
       (fl_mul (fl_sqrt (rnd (of_int (food ^ 2 * service))))
          (fl_div (Finite 1) (fl_mul (rnd (of_nat N)) (fl_sqrt (Finite 125)))))
       (Finite 10)"

definition paired_score :: "int list \<Rightarrow> int list \<Rightarrow> pynum" where
  "paired_score food_scores service_scores =
     (let N = min (length food_scores) (length service_scores);
          pairs = zip food_scores service_scores
      in if pairs = [] then PyInt 0
         else PyFloat (fl_round2
                (foldl fl_add (Finite 0) (map (\<lambda>(f, s). contribution N f s) pairs))))"

section \<open>Properties of sanitize\<close>

lemma VALID_not_isspace: "c \<in> VALID_CODE_CHARS \<Longrightarrow> \<not> isspace c"
  by (auto simp: VALID_CODE_CHARS_def ascii_lowercase_def digits_def isspace_def)

lemma VALID_lower_char: "c \<in> VALID_CODE_CHARS \<Longrightarrow> lower_char c = c"
  by (auto simp: VALID_CODE_CHARS_def ascii_lowercase_def digits_def lower_char_def)

lemma dropWhile_none: "\<forall>c \<in> set s. \<not> P c \<Longrightarrow> dropWhile P s = s"
  by (cases s) auto

lemma strip_no_space: "\<forall>c \<in> set s. \<not> isspace c \<Longrightarrow> strip s = s"
  by (simp add: strip_def lstrip_def rstrip_def dropWhile_none)

lemma sanitize_charwise:
  "sanitize name =
     filter (\<lambda>c. c \<in> VALID_CODE_CHARS) (map lower_char (filter (\<lambda>c. \<not> isspace c) name))"
  unfolding sanitize_def SPACES_sub_empty_def lower_def
  by (simp add: strip_no_space VALID_not_isspace)

lemma set_sanitize: "set (sanitize name) \<subseteq> VALID_CODE_CHARS"
  by (auto simp: sanitize_charwise)

lemma sanitize_fixes_valid:
  assumes "set s \<subseteq> VALID_CODE_CHARS"
  shows "sanitize s = s"
proof -
  have a: "filter (\<lambda>c. \<not> isspace c) s = s"
    using assms by (auto simp: filter_id_conv VALID_not_isspace)
  have b: "map lower_char s = s"
    using assms by (auto intro!: map_idI simp: VALID_lower_char)
  have c: "filter (\<lambda>c. c \<in> VALID_CODE_CHARS) s = s"
    using assms by (auto simp: filter_id_conv)
  show ?thesis by (simp add: sanitize_charwise a b c)
qed

lemma filter_dropWhile_neg: "filter (\<lambda>c. \<not> P c) (dropWhile P s) = filter (\<lambda>c. \<not> P c) s"
  by (induction s) auto

lemma filter_strip: "filter (\<lambda>c. \<not> isspace c) (strip s) = filter (\<lambda>c. \<not> isspace c) s"
proof -
  have "filter (\<lambda>c. \<not> isspace c) (rstrip t) = filter (\<lambda>c. \<not> isspace c) t" for t
    unfolding rstrip_def
    by (metis filter_dropWhile_neg rev_filter rev_rev_ident)
  then show ?thesis
    by (simp add: strip_def lstrip_def filter_dropWhile_neg)
qed

lemma sanitize_strip: "sanitize (strip s) = sanitize s"
  by (simp add: sanitize_charwise filter_strip)

section \<open>Properties of fetch_restaurant_data\<close>

lemma unpack2_split1_dot:
  "CHR ''.'' \<in> set line \<Longrightarrow>
     unpack2 (split1 (CHR ''.'') line) =
       Inr (name_field line, tl (dropWhile (\<lambda>c. c \<noteq> CHR ''.'') line))"
  by (simp add: split1_def name_field_def)

lemma unpack2_split1_nodot:
  "CHR ''.'' \<notin> set line \<Longrightarrow> unpack2 (split1 (CHR ''.'') line) = Inl ValueError"
  by (simp add: split1_def)

lemma fetch_loop_match:
  assumes "CHR ''.'' \<in> set entry" and "sanitize (name_field entry) = sname" and "d name = Some acc"
  shows "fetch_loop name sname (entry # more) d =
           fetch_loop name sname more (d(name \<mapsto> acc @ [review_text entry]))"
  using assms by (simp add: unpack2_split1_dot sanitize_strip review_text_def)

lemma fetch_loop_no_match:
  assumes "CHR ''.'' \<in> set entry" and "sanitize (name_field entry) \<noteq> sname"
  shows "fetch_loop name sname (entry # more) d = fetch_loop name sname more d"
  using assms by (simp add: unpack2_split1_dot sanitize_strip)

lemma fetch_loop_wellformed:
  assumes "\<forall>line \<in> set store. CHR ''.'' \<in> set line" and "d name = Some acc"
  shows "fetch_loop name sname store d =
           Inr (d(name \<mapsto>
             acc @ map review_text (filter (\<lambda>line. sanitize (name_field line) = sname) store)))"
  using assms
proof (induction store arbitrary: d acc)
  case Nil
  then show ?case by (simp add: fun_upd_idem)
next
  case (Cons entry more)
  from Cons.prems have dot: "CHR ''.'' \<in> set entry"
    and rest: "\<forall>line \<in> set more. CHR ''.'' \<in> set line" by simp_all
  show ?case
  proof (cases "sanitize (name_field entry) = sname")
    case True
    have "fetch_loop name sname (entry # more) d =
        fetch_loop name sname more (d(name \<mapsto> acc @ [review_text entry]))"
      using dot True Cons.prems(2) by (rule fetch_loop_match)
    also have "\<dots> =
        Inr ((d(name \<mapsto> acc @ [review_text entry]))(name \<mapsto> (acc @ [review_text entry]) @
          map review_text (filter (\<lambda>line. sanitize (name_field line) = sname) more)))"
      by (rule Cons.IH) (simp_all add: rest)
    also have "(d(name \<mapsto> acc @ [review_text entry]))(name \<mapsto> (acc @ [review_text entry]) @
          map review_text (filter (\<lambda>line. sanitize (name_field line) = sname) more)) =
        d(name \<mapsto> acc @
          map review_text (filter (\<lambda>line. sanitize (name_field line) = sname) (entry # more)))"
      using True by simp
    finally show ?thesis .
  next
    case False
    have "fetch_loop name sname (entry # more) d = fetch_loop name sname more d"
      using dot False by (rule fetch_loop_no_match)
    also have "\<dots> =
        Inr (d(name \<mapsto> acc @
          map review_text (filter (\<lambda>line. sanitize (name_field line) = sname) more)))"
      by (rule Cons.IH) (simp_all add: rest Cons.prems(2))
    also have "filter (\<lambda>line. sanitize (name_field line) = sname) more =
        filter (\<lambda>line. sanitize (name_field line) = sname) (entry # more)"
      using False by simp
    finally show ?thesis .
  qed
qed

lemma fetch_loop_malformed:
  assumes "bad \<in> set store" and "CHR ''.'' \<notin> set bad" and "d name = Some acc"
  shows "fetch_loop name sname store d = Inl ValueError"
  using assms
proof (induction store arbitrary: d acc)
  case Nil
  then show ?case by simp
next
  case (Cons entry more)
  show ?case
  proof (cases "CHR ''.'' \<in> set entry")
    case False
    then show ?thesis by (simp add: unpack2_split1_nodot)
  next
    case True
    with Cons.prems have mem: "bad \<in> set more" by auto
    show ?thesis
    proof (cases "sanitize (name_field entry) = sname")
      case yes: True
      have "fetch_loop name sname more (d(name \<mapsto> acc @ [review_text entry])) = Inl ValueError"
        by (rule Cons.IH [where acc = "acc @ [review_text entry]"]) (simp_all add: mem Cons.prems(2))
      moreover have "fetch_loop name sname (entry # more) d =
          fetch_loop name sname more (d(name \<mapsto> acc @ [review_text entry]))"
        using True yes Cons.prems(3) by (rule fetch_loop_match)
      ultimately show ?thesis
        by (simp del: fetch_loop.simps)
    next
      case no: False
      have "fetch_loop name sname more d = Inl ValueError"
        by (rule Cons.IH [where acc = acc]) (simp_all add: mem Cons.prems)
      then show ?thesis
        by (simp add: fetch_loop_no_match [OF True no] del: fetch_loop.simps)
    qed
  qed
qed

lemma fetch_restaurant_data_wellformed:
  assumes "\<forall>line \<in> set store. CHR ''.'' \<in> set line"
  shows "fetch_restaurant_data store name =
           Inr [name \<mapsto> map review_text
                  (filter (\<lambda>line. sanitize (name_field line) = sanitize name) store)]"
  unfolding fetch_restaurant_data_def Let_def
  by (subst fetch_loop_wellformed [OF assms, where acc = "[]"]) simp_all

section \<open>Properties of the float arithmetic\<close>

lemma bit_length_pos: "0 < n \<Longrightarrow> bit_length n = Suc (bit_length (n div 2))"
  by (subst bit_length.simps) simp

lemma bit_length_nonpos: "n \<le> 0 \<Longrightarrow> bit_length n = 0"
  by (subst bit_length.simps) simp

lemma bit_length_bounds:
  "0 < n \<Longrightarrow> 2 ^ (bit_length n - 1) \<le> n \<and> n < 2 ^ bit_length n"
proof (induction n rule: bit_length.induct)
  case (1 n)
  show ?case
  proof (cases "n = 1")
    case True
    then show ?thesis
      by (simp add: bit_length_pos bit_length_nonpos)
  next
    case False
    with "1.prems" have half: "0 < n div 2" by simp
    from "1.prems" have "\<not> n \<le> 0" by simp
    from "1.IH" [OF this half]
    have lo: "2 ^ (bit_length (n div 2) - 1) \<le> n div 2"
      and hi: "n div 2 < 2 ^ bit_length (n div 2)" by simp_all
    from half have "0 < bit_length (n div 2)" by (simp add: bit_length_pos)
    then have "(2::int) ^ bit_length (n div 2) = 2 * 2 ^ (bit_length (n div 2) - 1)"
      by (cases "bit_length (n div 2)") simp_all
    with lo have "2 ^ bit_length (n div 2) \<le> 2 * (n div 2)" by simp
    also have "\<dots> \<le> n" by simp
    finally have a: "2 ^ bit_length (n div 2) \<le> n" .
    from hi have "n div 2 + 1 \<le> 2 ^ bit_length (n div 2)" by simp
    then have "2 * (n div 2) + 2 \<le> 2 * 2 ^ bit_length (n div 2)" by simp
    moreover have "n < 2 * (n div 2) + 2" by presburger
    ultimately have b: "n < 2 * 2 ^ bit_length (n div 2)" by linarith
    from a b "1.prems" show ?thesis by (simp add: bit_length_pos)
  qed
qed

lemma powi_2_mono: "a \<le> b \<Longrightarrow> (2::rat) powi a \<le> 2 powi b"
  by (rule power_int_increasing) simp_all

lemma powi_2_less: "(2::rat) powi a < 2 powi b \<Longrightarrow> a < b"
  using powi_2_mono [of b a] by (cases "a < b") auto

lemma powi_2_double: "(2::rat) powi (a + 1) = 2 * 2 powi a"
  by (simp add: power_int_add)

lemma floor_log2_bounds:
  assumes "0 < x"
  shows "2 powi floor_log2 x \<le> x \<and> x < 2 powi (floor_log2 x + 1)"
proof -
  obtain p q where pq: "quotient_of x = (p, q)" by (cases "quotient_of x")
  then have q: "0 < q" and x: "x = of_int p / of_int q"
    by (simp_all add: quotient_of_denom_pos quotient_of_div)
  with assms have p: "0 < p"
    by (simp add: zero_less_divide_iff)
  define a where "a = bit_length p"
  define b where "b = bit_length q"
  from bit_length_bounds [OF p] have pa: "2 ^ (a - 1) \<le> p" "p < 2 ^ a" by (simp_all add: a_def)
  from bit_length_bounds [OF q] have qb: "2 ^ (b - 1) \<le> q" "q < 2 ^ b" by (simp_all add: b_def)
  from p have a0: "0 < a" by (simp add: a_def bit_length_pos)
  from q have b0: "0 < b" by (simp add: b_def bit_length_pos)
  have pr: "(2::rat) ^ (a - 1) \<le> of_int p" "(of_int p :: rat) < 2 ^ a"
    using pa by (metis of_int_le_iff of_int_numeral of_int_power, metis of_int_less_iff of_int_numeral of_int_power)
  have qr: "(2::rat) ^ (b - 1) \<le> of_int q" "(of_int q :: rat) < 2 ^ b"
    using qb by (metis of_int_le_iff of_int_numeral of_int_power, metis of_int_less_iff of_int_numeral of_int_power)
  have qpos: "(0::rat) < of_int q" using q by simp
  have up: "x < 2 powi (int a - int b + 1)"
  proof -
    have "of_int p * (2::rat) ^ (b - 1) < 2 ^ a * of_int q"
      using pr qr qpos p by (intro mult_less_le_imp_less) simp_all
    then have "x * 2 ^ (b - 1) < 2 ^ a"
      using qpos by (simp add: x field_simps)
    then have "x < 2 ^ a / 2 ^ (b - 1)"
      by (simp add: field_simps)
    also have "(2::rat) ^ a / 2 ^ (b - 1) = 2 powi (int a - int (b - 1))"
      by (simp add: power_int_diff)
    also have "int a - int (b - 1) = int a - int b + 1"
      using b0 by simp
    finally show ?thesis .
  qed
  have low: "2 powi (int a - int b - 1) \<le> x"
  proof -
    have "(2::rat) ^ (a - 1) * of_int q \<le> of_int p * 2 ^ b"
      using pr qr qpos p by (intro mult_mono) simp_all
    then have "2 ^ (a - 1) / 2 ^ b \<le> x"
      using qpos by (simp add: x field_simps)
    moreover have "(2::rat) ^ (a - 1) / 2 ^ b = 2 powi (int (a - 1) - int b)"
      by (simp add: power_int_diff)
    moreover have "int (a - 1) - int b = int a - int b - 1"
      using a0 by simp
    ultimately show ?thesis by (simp add: algebra_simps)
  qed
  show ?thesis
  proof (cases "2 powi (int a - int b) \<le> x")
    case True
    then have "floor_log2 x = int a - int b"
      by (simp add: floor_log2_def pq a_def b_def)
    with True up show ?thesis by simp
  next
    case False
    then have "floor_log2 x = int a - int b - 1"
      by (simp add: floor_log2_def pq a_def b_def)
    with False low show ?thesis by simp
  qed
qed

lemma floor_log2_unique:
  assumes "2 powi e \<le> x" and "x < 2 powi (e + 1)"
  shows "floor_log2 x = e"
proof -
  have "0 < (2::rat) powi e" by simp
  with assms have pos: "0 < x" by linarith
  from floor_log2_bounds [OF pos]
  have a: "2 powi floor_log2 x \<le> x" and b: "x < 2 powi (floor_log2 x + 1)" by simp_all
  from a assms(2) have "(2::rat) powi floor_log2 x < 2 powi (e + 1)" by linarith
  then have "floor_log2 x < e + 1" by (rule powi_2_less)
  moreover from assms(1) b have "(2::rat) powi e < 2 powi (floor_log2 x + 1)" by linarith
  then have "e < floor_log2 x + 1" by (rule powi_2_less)
  ultimately show ?thesis by simp
qed

lemma round_half_even_bounds:
  "of_int (round_half_even y) \<le> y + 1 / 2 \<and> y - 1 / 2 \<le> of_int (round_half_even y)"
proof -
  define f where "f = \<lfloor>y\<rfloor>"
  have f: "of_int f \<le> y" "y < of_int f + 1"
    unfolding f_def by linarith+
  have "round_half_even y =
      (if y - of_int f < 1 / 2 then f
       else if 1 / 2 < y - of_int f then f + 1 else if even f then f else f + 1)"
    by (simp add: round_half_even_def Let_def f_def)
  with f show ?thesis
    by (auto split: if_splits)
qed

lemma round_half_even_eval:
  assumes "of_int n - 1 / 2 < y" and "y < of_int n + 1 / 2"
  shows "round_half_even y = n"
proof -
  from round_half_even_bounds [of y] assms
  have "(of_int (round_half_even y) :: rat) < of_int n + 1"
    and "(of_int n :: rat) - 1 < of_int (round_half_even y)" by linarith+
  then have "round_half_even y < n + 1" "n - 1 < round_half_even y"
    by (metis of_int_less_iff of_int_add of_int_1, metis of_int_less_iff of_int_diff of_int_1)
  then show ?thesis by simp
qed

lemma int_less_of_rat_less: "(of_int a :: rat) < of_int b + 1 / 2 \<Longrightarrow> a \<le> b"
proof -
  assume "(of_int a :: rat) < of_int b + 1 / 2"
  then have "(of_int a :: rat) < of_int (b + 1)" by simp
  then have "a < b + 1" by (simp only: of_int_less_iff)
  then show ?thesis by simp
qed

lemma int_ge_of_rat_ge: "(of_int b :: rat) - 1 / 2 \<le> of_int a \<Longrightarrow> b \<le> a"
proof -
  assume "(of_int b :: rat) - 1 / 2 \<le> of_int a"
  then have "(of_int (b - 1) :: rat) < of_int a" by simp
  then have "b - 1 < a" by (simp only: of_int_less_iff)
  then show ?thesis by simp
qed

lemma round_pos_unfold:
  assumes "2 powi e0 \<le> x" and "x < 2 powi (e0 + 1)" and "e = max e0 (- 1022)"
  shows "round_pos x = of_int (round_half_even (x / 2 powi (e - 52))) * 2 powi (e - 52)"
  using floor_log2_unique [OF assms(1,2)] assms(3) by (simp add: round_pos_def Let_def)

lemma round_pos_eval:
  assumes "2 powi e \<le> x" and "x < 2 powi (e + 1)" and "- 1022 \<le> e"
    and "of_int n - 1 / 2 < x / 2 powi (e - 52)" and "x / 2 powi (e - 52) < of_int n + 1 / 2"
  shows "round_pos x = of_int n * 2 powi (e - 52)"
proof -
  from assms(3) have "e = max e (- 1022)" by simp
  from round_pos_unfold [OF assms(1,2) this] round_half_even_eval [OF assms(4,5)]
  show ?thesis by simp
qed

lemma round_pos_nonneg:
  assumes "0 < x"
  shows "0 \<le> round_pos x"
proof -
  define e where "e = max (floor_log2 x) (- 1022)"
  define q :: rat where "q = 2 powi (e - 52)"
  have q: "0 < q" by (simp add: q_def)
  with assms have "0 < x / q" by simp
  with round_half_even_bounds [of "x / q"]
  have "(of_int 0 :: rat) - 1 / 2 \<le> of_int (round_half_even (x / q))" by simp
  then have "0 \<le> round_half_even (x / q)" by (rule int_ge_of_rat_ge)
  with q have "0 \<le> of_int (round_half_even (x / q)) * q" by simp
  then show ?thesis by (simp add: round_pos_def Let_def e_def q_def)
qed

lemma round_pos_ge_1:
  assumes "1 \<le> x"
  shows "1 \<le> round_pos x"
proof -
  from assms have pos: "0 < x" by simp
  define e where "e = floor_log2 x"
  from floor_log2_bounds [OF pos] have lo: "2 powi e \<le> x" and hi: "x < 2 powi (e + 1)"
    by (simp_all add: e_def)
  from assms hi have "(2::rat) powi 0 < 2 powi (e + 1)" by simp
  then have e0: "0 \<le> e" using powi_2_less [of 0 "e + 1"] by simp
  then have em: "e = max e (- 1022)" by simp
  define q :: rat where "q = 2 powi (e - 52)"
  have q: "0 < q" by (simp add: q_def)
  have eq: "(2::rat) powi e = 2 ^ 52 * q"
    by (simp add: q_def power_int_diff)
  with lo q have "2 ^ 52 \<le> x / q" by (simp add: field_simps)
  with round_half_even_bounds [of "x / q"]
  have "(of_int (2 ^ 52) :: rat) - 1 / 2 \<le> of_int (round_half_even (x / q))" by simp
  then have "2 ^ 52 \<le> round_half_even (x / q)" by (rule int_ge_of_rat_ge)
  then have "(of_int (2 ^ 52) :: rat) \<le> of_int (round_half_even (x / q))"
    by (simp only: of_int_le_iff)
  then have "2 ^ 52 * q \<le> of_int (round_half_even (x / q)) * q"
    using q by simp
  moreover have "(1::rat) \<le> 2 powi e" using e0 by (simp add: one_le_power_int)
  ultimately have "1 \<le> of_int (round_half_even (x / q)) * q" using eq by linarith
  with round_pos_unfold [OF lo hi em] show ?thesis by (simp add: q_def)
qed

lemma round_pos_le_DBL_MAX:
  assumes "0 < x" and "x < 2 ^ 1024 - 2 ^ 970"
  shows "round_pos x \<le> DBL_MAX"
proof -
  define e0 where "e0 = floor_log2 x"
  from floor_log2_bounds [OF assms(1)] have lo: "2 powi e0 \<le> x" and hi: "x < 2 powi (e0 + 1)"
    by (simp_all add: e0_def)
  define e where "e = max e0 (- 1022)"
  define q :: rat where "q = 2 powi (e - 52)"
  define n where "n = round_half_even (x / q)"
  have q: "0 < q" by (simp add: q_def)
  have rp: "round_pos x = of_int n * q"
    using round_pos_unfold [OF lo hi e_def] by (simp add: n_def q_def)
  have nb: "of_int n \<le> x / q + 1 / 2"
    using round_half_even_bounds [of "x / q"] by (simp add: n_def)
  from lo assms(2) have "(2::rat) powi e0 < 2 powi 1024" by simp
  then have "e0 < 1024" by (rule powi_2_less)
  then have e_le: "e \<le> 1023" by (simp add: e_def)
  show ?thesis
  proof (cases "e = 1023")
    case True
    then have qv: "q = 2 ^ 971" by (simp add: q_def)
    from assms(2) have "x / q < 2 ^ 53 - 1 / 2"
      by (simp add: qv field_simps)
    with nb have "(of_int n :: rat) < 2 ^ 53" by linarith
    moreover have "(of_int (2 ^ 53) :: rat) = 2 ^ 53" by simp
    ultimately have "(of_int n :: rat) < of_int (2 ^ 53)" by (simp only:)
    then have "n < 2 ^ 53" by (simp only: of_int_less_iff)
    then have "n \<le> 2 ^ 53 - 1" by simp
    then have "(of_int n :: rat) \<le> of_int (2 ^ 53 - 1)" by (simp only: of_int_le_iff)
    then have "of_int n * q \<le> (2 ^ 53 - 1) * q" using q by simp
    then show ?thesis by (simp add: rp qv DBL_MAX_def)
  next
    case False
    with e_le have e22: "e \<le> 1022" by simp
    have "e0 \<le> e" by (simp add: e_def)
    then have "(2::rat) powi (e0 + 1) \<le> 2 powi (e + 1)" by (intro powi_2_mono) simp
    with hi have xe: "x < 2 powi (e + 1)" by linarith
    have eq: "(2::rat) powi (e + 1) = 2 ^ 53 * q"
      by (simp add: q_def power_int_diff power_int_add)
    with xe q have "x / q < 2 ^ 53" by (simp add: field_simps)
    with nb have "(of_int n :: rat) < 2 ^ 53 + 1 / 2" by linarith
    moreover have "(of_int (2 ^ 53) :: rat) = 2 ^ 53" by simp
    ultimately have "(of_int n :: rat) < of_int (2 ^ 53) + 1 / 2" by (simp only:)
    then have "n \<le> 2 ^ 53" by (rule int_less_of_rat_less)
    then have "(of_int n :: rat) \<le> of_int (2 ^ 53)" by (simp only: of_int_le_iff)
    then have "of_int n * q \<le> 2 ^ 53 * q" using q by simp
    also have "\<dots> = 2 powi (e + 1)" by (simp add: eq)
    also have "\<dots> \<le> 2 powi 1023" using e22 by (intro powi_2_mono) simp
    also have "\<dots> \<le> DBL_MAX" by (simp add: DBL_MAX_def)
    finally show ?thesis by (simp add: rp)
  qed
qed

lemma rnd_eval:
  assumes "2 powi e \<le> x" and "x < 2 powi (e + 1)" and "- 1022 \<le> e"
    and "of_int n - 1 / 2 < x / 2 powi (e - 52)" and "x / 2 powi (e - 52) < of_int n + 1 / 2"
    and "y = of_int n * 2 powi (e - 52)" and "y \<le> DBL_MAX"
  shows "rnd x = Finite y"
proof -
  have "0 < (2::rat) powi e" by simp
  with assms(1) have "0 < x" by linarith
  with round_pos_eval [OF assms(1-5)] assms(6,7) show ?thesis
    by (simp add: rnd_def Let_def)
qed

lemma rnd_Finite_bound: "rnd x = Finite y \<Longrightarrow> \<bar>y\<bar> \<le> DBL_MAX"
proof -
  assume a: "rnd x = Finite y"
  show ?thesis
  proof (cases "x = 0")
    case True
    with a show ?thesis by (simp add: rnd_def DBL_MAX_def)
  next
    case False
    then have "0 < \<bar>x\<bar>" by simp
    from round_pos_nonneg [OF this] a False show ?thesis
      by (auto simp: rnd_def Let_def split: if_splits)
  qed
qed

lemma rnd_ge_1:
  assumes "1 \<le> x"
  shows "rnd x = PInf \<or> (\<exists>y. rnd x = Finite y \<and> 1 \<le> y)"
  using round_pos_ge_1 [OF assms] assms by (simp add: rnd_def Let_def)

lemma rnd_finite:
  assumes "\<bar>x\<bar> < 2 ^ 1024 - 2 ^ 970"
  shows "\<exists>y. rnd x = Finite y \<and> (0 \<le> x \<longrightarrow> 0 \<le> y)"
proof (cases "x = 0")
  case True
  then show ?thesis by (simp add: rnd_def)
next
  case False
  then have pos: "0 < \<bar>x\<bar>" by simp
  from round_pos_le_DBL_MAX [OF pos assms] round_pos_nonneg [OF pos] False
  show ?thesis by (cases "0 < x") (simp_all add: rnd_def Let_def)
qed

lemma isqrt_aux_correct:
  assumes "0 \<le> r" and "r * r \<le> n" and "n < (r + 2 ^ k) * (r + 2 ^ k)"
  shows "0 \<le> isqrt_aux k r n \<and> isqrt_aux k r n * isqrt_aux k r n \<le> n
         \<and> n < (isqrt_aux k r n + 1) * (isqrt_aux k r n + 1)"
  using assms
proof (induction k arbitrary: r)
  case 0
  then show ?case by simp
next
  case (Suc k)
  show ?case
  proof (cases "(r + 2 ^ k) * (r + 2 ^ k) \<le> n")
    case True
    have "r + 2 ^ k + 2 ^ k = r + 2 ^ Suc k" by simp
    with Suc.prems(3) have "n < (r + 2 ^ k + 2 ^ k) * (r + 2 ^ k + 2 ^ k)" by (simp only:)
    moreover from Suc.prems(1) have "0 \<le> r + 2 ^ k" by simp
    ultimately show ?thesis
      using Suc.IH [of "r + 2 ^ k"] True by (simp add: Let_def)
  next
    case False
    then have "n < (r + 2 ^ k) * (r + 2 ^ k)" by simp
    with Suc.IH [of r] Suc.prems(1,2) False show ?thesis by (simp add: Let_def)
  qed
qed

lemma isqrt_correct:
  assumes "0 \<le> n"
  shows "0 \<le> isqrt n \<and> isqrt n * isqrt n \<le> n \<and> n < (isqrt n + 1) * (isqrt n + 1)"
proof -
  have "n < 2 ^ bit_length n"
  proof (cases "n = 0")
    case True
    then show ?thesis by (simp add: bit_length_nonpos)
  next
    case False
    with assms have "0 < n" by simp
    from bit_length_bounds [OF this] show ?thesis by simp
  qed
  moreover have "(1::int) \<le> 2 ^ bit_length n" by simp
  ultimately have "n * 1 < 2 ^ bit_length n * 2 ^ bit_length n"
    using assms by (intro mult_less_le_imp_less) simp_all
  then have "n < (0 + 2 ^ bit_length n) * (0 + 2 ^ bit_length n)" by simp
  with assms isqrt_aux_correct [of 0 n "bit_length n"] show ?thesis
    by (simp add: isqrt_def)
qed

lemma square_less_imp_less_int:
  fixes a b :: int
  assumes "a * a < b * b" and "0 \<le> b"
  shows "a < b"
proof (rule ccontr)
  assume "\<not> a < b"
  with assms(2) have "b \<le> a" "0 \<le> a" by simp_all
  with assms(2) have "b * b \<le> a * a" by (intro mult_mono) simp_all
  with assms(1) show False by simp
qed

lemma isqrt_unique:
  assumes "0 \<le> r" and "r * r \<le> n" and "n < (r + 1) * (r + 1)"
  shows "isqrt n = r"
proof -
  have "0 \<le> r * r" by simp
  with assms(2) have "0 \<le> n" by linarith
  from isqrt_correct [OF this]
  have s: "0 \<le> isqrt n" "isqrt n * isqrt n \<le> n" "n < (isqrt n + 1) * (isqrt n + 1)"
    by simp_all
  have "isqrt n < r + 1"
  proof (rule square_less_imp_less_int)
    from s(2) assms(3) show "isqrt n * isqrt n < (r + 1) * (r + 1)" by linarith
    from assms(1) show "0 \<le> r + 1" by simp
  qed
  moreover have "r < isqrt n + 1"
  proof (rule square_less_imp_less_int)
    from assms(2) s(3) show "r * r < (isqrt n + 1) * (isqrt n + 1)" by linarith
    from s(1) show "0 \<le> isqrt n + 1" by simp
  qed
  ultimately show ?thesis by simp
qed

lemma sqrt_round_pos_eval:
  assumes "2 powi (2 * e) \<le> x" and "x < 2 powi (2 * e + 2)" and "- 1022 \<le> e"
    and "z = x / (2 powi (e - 52) * 2 powi (e - 52))"
    and "0 \<le> n" and "n * n \<le> \<lfloor>z\<rfloor>" and "\<lfloor>z\<rfloor> < (n + 1) * (n + 1)"
    and "m = (if z < (of_int n + 1 / 2) * (of_int n + 1 / 2) then n
              else if (of_int n + 1 / 2) * (of_int n + 1 / 2) < z then n + 1
              else if even n then n else n + 1)"
  shows "sqrt_round_pos x = of_int m * 2 powi (e - 52)"
proof -
  have "0 < (2::rat) powi (2 * e)" by simp
  with assms(1) have pos: "0 < x" by linarith
  from floor_log2_bounds [OF pos]
  have lo: "2 powi floor_log2 x \<le> x" and hi: "x < 2 powi (floor_log2 x + 1)" by simp_all
  from lo assms(2) have "(2::rat) powi floor_log2 x < 2 powi (2 * e + 2)" by linarith
  then have "floor_log2 x < 2 * e + 2" by (rule powi_2_less)
  moreover from assms(1) hi have "(2::rat) powi (2 * e) < 2 powi (floor_log2 x + 1)" by linarith
  then have "2 * e < floor_log2 x + 1" by (rule powi_2_less)
  ultimately have "floor_log2 x div 2 = e" by presburger
  with assms(3) have e: "max (floor_log2 x div 2) (- 1022) = e" by simp
  from isqrt_unique [OF assms(5,6,7)] have n: "isqrt \<lfloor>z\<rfloor> = n" .
  show ?thesis
    unfolding sqrt_round_pos_def Let_def e assms(4) [symmetric] n assms(8) ..
qed

lemma rnd_1: "rnd 1 = Finite 1"
  by (rule rnd_eval [where e = 0 and n = "2 ^ 52"]) (simp_all add: DBL_MAX_def)

lemma rnd_10: "rnd 10 = Finite 10"
  by (rule rnd_eval [where e = 3 and n = "10 * 2 ^ 49"]) (simp_all add: DBL_MAX_def)

lemma rnd_125: "rnd 125 = Finite 125"
  by (rule rnd_eval [where e = 6 and n = "125 * 2 ^ 46"]) (simp_all add: DBL_MAX_def)

lemma fl_sqrt_125: "fl_sqrt (Finite 125) = Finite (3146985909450985 / 281474976710656)"
proof -
  have "sqrt_round_pos 125 = of_int 6293971818901970 * 2 powi (3 - 52)"
    by (rule sqrt_round_pos_eval [where n = 6293971818901969 and z = "125 * 2 ^ 98"]) simp_all
  then show ?thesis by (simp add: fl_sqrt_def)
qed

lemma rnd_sqrt_125:
  "rnd (3146985909450985 / 281474976710656) = Finite (3146985909450985 / 281474976710656)"
  by (rule rnd_eval [where e = 3 and n = 6293971818901970]) (simp_all add: DBL_MAX_def)

lemma rnd_inv_sqrt_125:
  "rnd (1 / (3146985909450985 / 281474976710656)) =
     Finite (6445027142555617 / 72057594037927936)"
  by (rule rnd_eval [where e = "- 4" and n = 6445027142555617]) (simp_all add: DBL_MAX_def)

lemma rnd_sqrt_times_inv:
  "rnd (3146985909450985 / 281474976710656 * (6445027142555617 / 72057594037927936)) = Finite 1"
  by (rule rnd_eval [where e = 0 and n = "2 ^ 52"]) (simp_all add: DBL_MAX_def)

lemma fl_round2_10: "fl_round2 (Finite 10) = Finite 10"
proof -
  have "round_half_even (10 * 100) = 1000"
    by (rule round_half_even_eval) simp_all
  then show ?thesis by (simp add: fl_round2_def rnd_10)
qed

section \<open>Properties of calculate_overall_score\<close>

lemma and_then_Inr [simp]: "and_then (Inr x) f = f x"
  by (simp add: and_then_def)

lemma and_then_Inl [simp]: "and_then (Inl e) f = Inl e"
  by (simp add: and_then_def)

lemma fl_mul_Finite: "fl_mul (Finite x) (Finite y) = rnd (x * y)"
  by (simp add: fl_mul_def)

lemma fl_add_Finite: "fl_add (Finite x) (Finite y) = rnd (x + y)"
  by (simp add: fl_add_def)

lemma fl_div_Finite: "fl_div (Finite x) (Finite y) = rnd (x / y)"
  by (simp add: fl_div_def)

lemma rnd_0: "rnd 0 = Finite 0"
  by (simp add: rnd_def)

lemma rnd_of_int:
  assumes "0 \<le> n" and "n < 2 ^ 1024 - 2 ^ 970"
  shows "\<exists>y. rnd (of_int n) = Finite y \<and> 0 \<le> y"
proof -
  from assms(2) have "(of_int n :: rat) < of_int (2 ^ 1024 - 2 ^ 970)"
    by (simp only: of_int_less_iff)
  then have "(of_int n :: rat) < 2 ^ 1024 - 2 ^ 970" by simp
  moreover from assms(1) have "(0::rat) \<le> of_int n" by simp
  ultimately have "\<bar>of_int n :: rat\<bar> < 2 ^ 1024 - 2 ^ 970" by simp
  from rnd_finite [OF this] \<open>(0::rat) \<le> of_int n\<close> show ?thesis by blast
qed

lemma float_of_int_in_range:
  assumes "0 \<le> n" and "n < 2 ^ 1024 - 2 ^ 970"
  shows "float_of_int n = Inr (rnd (of_int n))"
  using rnd_of_int [OF assms] by (auto simp: float_of_int_def)

lemma float_of_int_1: "float_of_int 1 = Inr (Finite 1)"
  by (simp add: float_of_int_def rnd_1)

lemma float_of_int_10: "float_of_int 10 = Inr (Finite 10)"
  by (simp add: float_of_int_def rnd_10)

lemma float_of_int_125: "float_of_int 125 = Inr (Finite 125)"
  by (simp add: float_of_int_def rnd_125)

lemma float_of_int_0: "float_of_int 0 = Inr (Finite 0)"
  by (simp add: float_of_int_def rnd_0)

lemma math_sqrt_in_range:
  assumes "0 \<le> n" and "n < 2 ^ 1024 - 2 ^ 970"
  shows "math_sqrt (PyInt n) = Inr (PyFloat (fl_sqrt (rnd (of_int n))))"
proof -
  from rnd_of_int [OF assms] obtain y where y: "rnd (of_int n) = Finite y" "0 \<le> y" by blast
  then have "fl_sqrt (Finite y) \<noteq> NaN" by (simp add: fl_sqrt_def)
  with y show ?thesis
    by (simp add: math_sqrt_def as_float_def float_of_int_in_range [OF assms] Let_def)
qed

lemma math_sqrt_125:
  "math_sqrt (PyInt 125) = Inr (PyFloat (fl_sqrt (Finite 125)))"
  by (simp add: math_sqrt_def as_float_def float_of_int_125 fl_sqrt_125 Let_def)

lemma fl_mul_N_sqrt_125_nonzero:
  assumes "1 \<le> N" and "int N < 2 ^ 1024 - 2 ^ 970"
  shows "fl_mul (rnd (of_nat N)) (fl_sqrt (Finite 125)) \<noteq> Finite 0"
proof -
  have "(1::rat) \<le> of_nat N" using assms(1) by simp
  from rnd_ge_1 [OF this] have "rnd (of_nat N) = PInf \<or> (\<exists>y. rnd (of_nat N) = Finite y \<and> 1 \<le> y)" .
  then show ?thesis
  proof
    assume "rnd (of_nat N) = PInf"
    then show ?thesis by (simp add: fl_mul_def fl_sqrt_125)
  next
    assume "\<exists>y. rnd (of_nat N) = Finite y \<and> 1 \<le> y"
    then obtain y where y: "rnd (of_nat N) = Finite y" "1 \<le> y" by blast
    have "1 * 1 \<le> y * (3146985909450985 / 281474976710656)"
      using y(2) by (intro mult_mono) simp_all
    then have "1 \<le> y * (3146985909450985 / 281474976710656)" by simp
    from rnd_ge_1 [OF this] show ?thesis
      by (auto simp: y(1) fl_sqrt_125 fl_mul_Finite)
  qed
qed

lemma py_mul_N_sqrt_125:
  assumes "int N < 2 ^ 1024 - 2 ^ 970"
  shows "py_mul (PyInt (int N)) (PyFloat b) = Inr (PyFloat (fl_mul (rnd (of_nat N)) b))"
proof -
  have "float_of_int (int N) = Inr (rnd (of_int (int N)))"
    using assms by (intro float_of_int_in_range) simp_all
  then show ?thesis by (simp add: py_mul_def as_float_def)
qed

lemma py_truediv_1:
  assumes "c \<noteq> Finite 0"
  shows "py_truediv (PyInt 1) (PyFloat c) = Inr (PyFloat (fl_div (Finite 1) c))"
  using assms by (simp add: py_truediv_def as_float_def float_of_int_1)

lemma py_mul_float: "py_mul (PyFloat a) (PyFloat b) = Inr (PyFloat (fl_mul a b))"
  by (simp add: py_mul_def as_float_def)

lemma py_mul_10: "py_mul (PyFloat a) (PyInt 10) = Inr (PyFloat (fl_mul a (Finite 10)))"
  by (simp add: py_mul_def as_float_def float_of_int_10)

lemma py_add_float:
  "py_add acc (PyFloat t) = and_then (as_float acc) (\<lambda>x. Inr (PyFloat (fl_add x t)))"
  by (cases acc) (simp_all add: py_add_def as_float_def)

lemma loop_body_in_range:
  assumes "i < length fs" and "i < length ss"
    and "0 \<le> (fs ! i) ^ 2 * ss ! i" and "(fs ! i) ^ 2 * ss ! i < 2 ^ 1024 - 2 ^ 970"
    and "1 \<le> N" and "int N < 2 ^ 1024 - 2 ^ 970"
  shows "loop_body N fs ss acc i =
           and_then (as_float acc)
             (\<lambda>x. Inr (PyFloat (fl_add x (contribution N (fs ! i) (ss ! i)))))"
  unfolding loop_body_def contribution_def
  by (simp add: index_def assms(1,2) math_sqrt_in_range [OF assms(3,4)] math_sqrt_125
      py_mul_N_sqrt_125 [OF assms(6)] py_truediv_1 [OF fl_mul_N_sqrt_125_nonzero [OF assms(5,6)]]
      py_mul_float py_mul_10 py_add_float)

lemma for_range_in_range:
  assumes "\<forall>i \<in> set idx. i < length fs \<and> i < length ss
             \<and> 0 \<le> (fs ! i) ^ 2 * ss ! i \<and> (fs ! i) ^ 2 * ss ! i < 2 ^ 1024 - 2 ^ 970"
    and "1 \<le> N" and "int N < 2 ^ 1024 - 2 ^ 970"
    and "as_float acc = Inr a"
  shows "for_range idx (loop_body N fs ss) acc =
           (if idx = [] then Inr acc
            else Inr (PyFloat
              (foldl fl_add a (map (\<lambda>i. contribution N (fs ! i) (ss ! i)) idx))))"
  using assms(1,4)
proof (induction idx arbitrary: acc a)
  case Nil
  then show ?case by simp
next
  case (Cons i rest)
  from Cons.prems(1) have i: "i < length fs" "i < length ss"
    "0 \<le> (fs ! i) ^ 2 * ss ! i" "(fs ! i) ^ 2 * ss ! i < 2 ^ 1024 - 2 ^ 970"
    and rest: "\<forall>i \<in> set rest. i < length fs \<and> i < length ss
             \<and> 0 \<le> (fs ! i) ^ 2 * ss ! i \<and> (fs ! i) ^ 2 * ss ! i < 2 ^ 1024 - 2 ^ 970"
    by simp_all
  define a' where "a' = fl_add a (contribution N (fs ! i) (ss ! i))"
  have step: "loop_body N fs ss acc i = Inr (PyFloat a')"
    by (simp add: loop_body_in_range [OF i assms(2,3)] Cons.prems(2) a'_def)
  have "as_float (PyFloat a') = Inr a'" by (simp add: as_float_def)
  from Cons.IH [OF rest this] step show ?case
    by (simp add: a'_def)
qed

lemma zip_as_map_nth:
  "zip xs ys = map (\<lambda>i. (xs ! i, ys ! i)) [0..<min (length xs) (length ys)]"
  by (rule nth_equalityI) simp_all

lemma contributions_zip:
  "map (\<lambda>i. contribution N (fs ! i) (ss ! i)) [0..<min (length fs) (length ss)] =
     map (\<lambda>(f, s). contribution N f s) (zip fs ss)"
  by (simp add: zip_as_map_nth [of fs ss])

lemma fl_add_Finite_bound: "fl_add a b = Finite y \<Longrightarrow> \<bar>y\<bar> \<le> DBL_MAX"
  by (cases a; cases b) (auto simp: fl_add_def dest: rnd_Finite_bound)

lemma foldl_fl_add_Finite_bound:
  assumes "ts \<noteq> []" and "foldl fl_add a ts = Finite y"
  shows "\<bar>y\<bar> \<le> DBL_MAX"
proof -
  from assms(1) obtain us u where "ts = us @ [u]" by (cases ts rule: rev_cases) auto
  with assms(2) have "fl_add (foldl fl_add a us) u = Finite y" by simp
  then show ?thesis by (rule fl_add_Finite_bound)
qed

lemma fl_round2_finite:
  assumes "\<bar>y\<bar> \<le> DBL_MAX"
  shows "\<exists>z. fl_round2 (Finite y) = Finite z"
proof -
  define k where "k = round_half_even (y * 100)"
  from round_half_even_bounds [of "y * 100"]
  have "of_int k \<le> y * 100 + 1 / 2" "y * 100 - 1 / 2 \<le> of_int k" by (simp_all add: k_def)
  then have "\<bar>of_int k / 100 :: rat\<bar> \<le> \<bar>y\<bar> + 1 / 200" by (simp add: abs_le_iff field_simps)
  also from assms have "\<dots> < 2 ^ 1024 - 2 ^ 970" by (simp add: DBL_MAX_def)
  finally have "\<exists>z. rnd (of_int k / 100) = Finite z"
    using rnd_finite [of "of_int k / 100"] by blast
  then show ?thesis by (simp add: fl_round2_def k_def)
qed

lemma round2_sum:
  assumes "ts \<noteq> []"
  shows "round2 (PyFloat (foldl fl_add a ts)) = Inr (PyFloat (fl_round2 (foldl fl_add a ts)))"
proof (cases "foldl fl_add a ts")
  case (Finite y)
  from fl_round2_finite [OF foldl_fl_add_Finite_bound [OF assms Finite]]
  obtain z where "fl_round2 (Finite y) = Finite z" by blast
  with Finite show ?thesis by (simp add: round2_def)
qed (simp_all add: round2_def fl_round2_def)

lemma calculate_overall_score_in_range:
  assumes "\<forall>i < min (length fs) (length ss).
             0 \<le> (fs ! i) ^ 2 * ss ! i \<and> (fs ! i) ^ 2 * ss ! i < 2 ^ 1024 - 2 ^ 970"
    and "int (min (length fs) (length ss)) < 2 ^ 1024 - 2 ^ 970"
  shows "calculate_overall_score name fs ss = Inr [name \<mapsto> paired_score fs ss]"
proof (cases "min (length fs) (length ss) = 0")
  case True
  then have "zip fs ss = []" by (cases fs; cases ss) simp_all
  with True show ?thesis
    by (simp add: calculate_overall_score_def paired_score_def round2_def)
next
  case False
  define N where "N = min (length fs) (length ss)"
  from False have N1: "1 \<le> N" unfolding N_def by linarith
  have idx: "[0..<N] \<noteq> []" using N1 by simp
  have zs: "zip fs ss \<noteq> []" using False by (cases fs; cases ss) simp_all
  have rng: "\<forall>i \<in> set [0..<N]. i < length fs \<and> i < length ss
      \<and> 0 \<le> (fs ! i) ^ 2 * ss ! i \<and> (fs ! i) ^ 2 * ss ! i < 2 ^ 1024 - 2 ^ 970"
    using assms(1) by (simp add: N_def)
  have a0: "as_float (PyInt 0) = Inr (Finite 0)"
    by (simp add: as_float_def float_of_int_0)
  define ts where "ts = map (\<lambda>(f, s). contribution N f s) (zip fs ss)"
  have ts: "ts \<noteq> []" using zs by (simp add: ts_def)
  have loop: "for_range [0..<N] (loop_body N fs ss) (PyInt 0) =
      Inr (PyFloat (foldl fl_add (Finite 0) ts))"
    using for_range_in_range [OF rng N1 assms(2) [folded N_def] a0] idx
    by (simp add: ts_def N_def contributions_zip)
  have r: "round2 (PyFloat (foldl fl_add (Finite 0) ts)) =
      Inr (PyFloat (fl_round2 (foldl fl_add (Finite 0) ts)))"
    by (rule round2_sum [OF ts])
  have p: "paired_score fs ss = PyFloat (fl_round2 (foldl fl_add (Finite 0) ts))"
    using zs by (simp add: paired_score_def Let_def ts_def N_def)
  show ?thesis
    unfolding calculate_overall_score_def Let_def N_def [symmetric] loop
    by (simp add: r p)
qed

lemma for_range_cong:
  assumes "\<forall>i \<in> set idx. \<forall>acc. body acc i = body' acc i"
  shows "for_range idx body acc = for_range idx body' acc"
  using assms
proof (induction idx arbitrary: acc)
  case Nil
  show ?case by simp
next
  case (Cons i rest)
  then have "for_range rest body = for_range rest body'" by auto
  with Cons.prems show ?case by simp
qed

lemma calculate_overall_score_take:
  "calculate_overall_score name fs ss =
     calculate_overall_score name
       (take (min (length fs) (length ss)) fs) (take (min (length fs) (length ss)) ss)"
proof -
  define N where "N = min (length fs) (length ss)"
  have len: "min (length (take N fs)) (length (take N ss)) = N"
    by (simp add: N_def)
  have "for_range [0..<N] (loop_body N fs ss) (PyInt 0) =
      for_range [0..<N] (loop_body N (take N fs) (take N ss)) (PyInt 0)"
    by (rule for_range_cong) (simp add: loop_body_def index_def N_def)
  then show ?thesis
    unfolding calculate_overall_score_def Let_def len N_def [symmetric] by simp
qed

lemma contribution_1_5_5: "contribution (Suc 0) 5 5 = Finite 10"
proof -
  have "rnd (of_int (5 ^ 2 * 5)) = Finite 125" by (simp add: rnd_125)
  moreover have "rnd (of_nat (Suc 0)) = Finite 1" by (simp add: rnd_1)
  moreover have "fl_mul (Finite 1) (Finite (3146985909450985 / 281474976710656)) =
      Finite (3146985909450985 / 281474976710656)"
    by (simp add: fl_mul_Finite rnd_sqrt_125)
  moreover have "fl_div (Finite 1) (Finite (3146985909450985 / 281474976710656)) =
      Finite (6445027142555617 / 72057594037927936)"
    unfolding fl_div_Finite by (rule rnd_inv_sqrt_125)
  moreover have "fl_mul (Finite (3146985909450985 / 281474976710656))
      (Finite (6445027142555617 / 72057594037927936)) = Finite 1"
    unfolding fl_mul_Finite by (rule rnd_sqrt_times_inv)
  moreover have "fl_mul (Finite 1) (Finite 10) = Finite 10"
    by (simp add: fl_mul_Finite rnd_10)
  ultimately show ?thesis
    by (simp only: contribution_def fl_sqrt_125)
qed

lemma paired_score_5_5: "paired_score [5] [5] = PyFloat (Finite 10)"
  by (simp add: paired_score_def contribution_1_5_5 fl_add_Finite rnd_10 fl_round2_10)

lemma rnd_minus_1: "rnd (- 1) = Finite (- 1)"
proof -
  have "round_pos 1 = of_int (2 ^ 52) * 2 powi (0 - 52)"
    by (rule round_pos_eval) simp_all
  then show ?thesis by (simp add: rnd_def DBL_MAX_def)
qed

section \<open>The claims about sanitize\<close>

text \<open>
  C7. \<open>sanitize\<close> is idempotent: for every string \<open>x\<close>,
  \<open>sanitize (sanitize x) = sanitize x\<close>.
\<close>

theorem sanitize_idempotent: "sanitize (sanitize x) = sanitize x"
  by (rule sanitize_fixes_valid) (rule set_sanitize)

text \<open>
  C9. \<open>sanitize\<close> is a total function on strings with no effect (the model is a function
  that has no error result and no state) that removes all whitespace, wherever it stands,
  lowercases, and keeps only the characters a to z and 0 to 9: its result is the input
  with every whitespace character deleted, every remaining character lowercased and of
  these only the ones in a to z, 0 to 9 kept; the result holds no whitespace and no other
  character; and it maps the empty string to the empty string and
  \<open>Chipotle Mexican Grill\<close> to \<open>chipotlemexicangrill\<close>.
\<close>

theorem sanitize_removes_lowercases_keeps:
  "sanitize x =
     filter (\<lambda>c. c \<in> set ''abcdefghijklmnopqrstuvwxyz0123456789'')
       (map lower_char (filter (\<lambda>c. \<not> isspace c) x))
   \<and> filter isspace (sanitize x) = []
   \<and> set (sanitize x) \<subseteq> set ''abcdefghijklmnopqrstuvwxyz0123456789''
   \<and> sanitize [] = []
   \<and> sanitize ''Chipotle Mexican Grill'' = ''chipotlemexicangrill''"
proof -
  have v: "VALID_CODE_CHARS = set ''abcdefghijklmnopqrstuvwxyz0123456789''"
    by (simp add: VALID_CODE_CHARS_def ascii_lowercase_def digits_def)
  have a: "sanitize x =
     filter (\<lambda>c. c \<in> set ''abcdefghijklmnopqrstuvwxyz0123456789'')
       (map lower_char (filter (\<lambda>c. \<not> isspace c) x))"
    by (simp only: sanitize_charwise v)
  have b: "filter isspace (sanitize x) = []"
    using set_sanitize [of x] by (auto simp: filter_empty_conv dest: VALID_not_isspace)
  have c: "set (sanitize x) \<subseteq> set ''abcdefghijklmnopqrstuvwxyz0123456789''"
    using set_sanitize [of x] by (simp only: v)
  have d: "sanitize [] = []"
    by (simp add: sanitize_charwise)
  have e: "sanitize ''Chipotle Mexican Grill'' = ''chipotlemexicangrill''"
    by code_simp
  from a b c d e show ?thesis by blast
qed

text \<open>
  C10. \<open>sanitize\<close> distributes over concatenation: for every pair of strings \<open>x\<close> and
  \<open>y\<close>, \<open>sanitize (x @ y) = sanitize x @ sanitize y\<close>.
\<close>

theorem sanitize_append: "sanitize (x @ y) = sanitize x @ sanitize y"
  by (simp add: sanitize_charwise)

section \<open>The claims about fetch_restaurant_data\<close>

text \<open>
  C2. For every query name and every store in which each line holds a dot,
  \<open>fetch_restaurant_data\<close> returns the mapping with the one key \<open>name\<close>, the query name
  as given, whose entry lists, in the order of the file, the trimmed review text of
  exactly the lines whose name field sanitizes to the same string as the query name; when
  no line matches, the entry is the empty list and no error is raised.
\<close>

theorem fetch_restaurant_data_matching_reviews:
  assumes "\<forall>line \<in> set store. CHR ''.'' \<in> set line"
  shows "fetch_restaurant_data store name =
           Inr [name \<mapsto> map review_text
                  (filter (\<lambda>line. sanitize (name_field line) = sanitize name) store)]
         \<and> ((\<forall>line \<in> set store. sanitize (name_field line) \<noteq> sanitize name) \<longrightarrow>
              fetch_restaurant_data store name = Inr [name \<mapsto> []])"
proof -
  have "filter (\<lambda>line. sanitize (name_field line) = sanitize name) store = []"
    if "\<forall>line \<in> set store. sanitize (name_field line) \<noteq> sanitize name"
    using that by (simp add: filter_empty_conv)
  then show ?thesis
    by (simp add: fetch_restaurant_data_wellformed [OF assms])
qed

theorem fetch_restaurant_data_matching_reviews_witness:
  "fetch_restaurant_data
     [''Subway. Great food, average service.'' @ [CHR 0x0A],
      ''Chipotle. Awful food. Good service.'' @ [CHR 0x0A],
      ''Sub Way.Amazing food, bad service.'']
     ''SUBWAY!'' =
   Inr [''SUBWAY!'' \<mapsto> [''Great food, average service.'', ''Amazing food, bad service.'']]
   \<and> fetch_restaurant_data
     [''Subway. Great food, average service.'' @ [CHR 0x0A],
      ''Chipotle. Awful food. Good service.'' @ [CHR 0x0A],
      ''Sub Way.Amazing food, bad service.'']
     ''Taco Bell'' = Inr [''Taco Bell'' \<mapsto> []]"
proof -
  let ?store = "[''Subway. Great food, average service.'' @ [CHR 0x0A],
      ''Chipotle. Awful food. Good service.'' @ [CHR 0x0A],
      ''Sub Way.Amazing food, bad service.'']"
  have dots: "\<forall>line \<in> set ?store. CHR ''.'' \<in> set line"
    by simp
  have m: "map review_text
      (filter (\<lambda>line. sanitize (name_field line) = sanitize ''SUBWAY!'') ?store) =
      [''Great food, average service.'', ''Amazing food, bad service.'']"
    by code_simp
  have n: "map review_text
      (filter (\<lambda>line. sanitize (name_field line) = sanitize ''Taco Bell'') ?store) = []"
    by code_simp
  from fetch_restaurant_data_matching_reviews [OF dots, of "''SUBWAY!''"]
    fetch_restaurant_data_matching_reviews [OF dots, of "''Taco Bell''"]
  show ?thesis
    by (simp only: m n)
qed

text \<open>
  C4. For every query name and every store that holds at least one line with no dot,
  \<open>fetch_restaurant_data\<close> returns no mapping: unpacking the split of that line raises
  \<open>ValueError\<close>, which ends the whole lookup; the line is not skipped.
\<close>

theorem fetch_restaurant_data_malformed_line:
  assumes "bad \<in> set store" and "CHR ''.'' \<notin> set bad"
  shows "fetch_restaurant_data store name = Inl ValueError"
  unfolding fetch_restaurant_data_def Let_def
  by (rule fetch_loop_malformed [OF assms, where acc = "[]"]) simp

theorem fetch_restaurant_data_malformed_line_witness:
  "fetch_restaurant_data
     [''Subway. Great food, average service.'' @ [CHR 0x0A],
      ''Subway - no separator here'' @ [CHR 0x0A],
      ''Subway. Amazing food, bad service.'']
     ''Subway'' = Inl ValueError"
  by (rule fetch_restaurant_data_malformed_line
        [where bad = "''Subway - no separator here'' @ [CHR 0x0A]"]) simp_all

text \<open>
  C8. For every store in which each line holds a dot, and any two query names \<open>a\<close> and
  \<open>b\<close> that sanitize to the same string, the lookups of \<open>a\<close> and of \<open>b\<close> return the same
  list of reviews, each under its own key. For the store line
  \<open>Subway. Great food, average service.\<close> (with or without the newline that ends a line
  of the file), the lookups of \<open>subway\<close> and of \<open>SUBWAY\<close> both return the trimmed review
  text \<open>Great food, average service.\<close>
\<close>

theorem fetch_restaurant_data_same_sanitized_name:
  "((\<forall>line \<in> set store. CHR ''.'' \<in> set line) \<and> sanitize a = sanitize b \<longrightarrow>
      (\<exists>reviews. fetch_restaurant_data store a = Inr [a \<mapsto> reviews]
                \<and> fetch_restaurant_data store b = Inr [b \<mapsto> reviews]))
   \<and> fetch_restaurant_data [''Subway. Great food, average service.''] ''subway'' =
       Inr [''subway'' \<mapsto> [''Great food, average service.'']]
   \<and> fetch_restaurant_data [''Subway. Great food, average service.''] ''SUBWAY'' =
       Inr [''SUBWAY'' \<mapsto> [''Great food, average service.'']]
   \<and> fetch_restaurant_data [''Subway. Great food, average service.'' @ [CHR 0x0A]] ''subway'' =
       Inr [''subway'' \<mapsto> [''Great food, average service.'']]
   \<and> fetch_restaurant_data [''Subway. Great food, average service.'' @ [CHR 0x0A]] ''SUBWAY'' =
       Inr [''SUBWAY'' \<mapsto> [''Great food, average service.'']]"
proof -
  have general: "\<exists>reviews. fetch_restaurant_data store a = Inr [a \<mapsto> reviews]
                \<and> fetch_restaurant_data store b = Inr [b \<mapsto> reviews]"
    if "\<forall>line \<in> set store. CHR ''.'' \<in> set line" and "sanitize a = sanitize b"
  proof -
    from that(1) have "fetch_restaurant_data store a =
        Inr [a \<mapsto> map review_text
          (filter (\<lambda>line. sanitize (name_field line) = sanitize a) store)]"
      and "fetch_restaurant_data store b =
        Inr [b \<mapsto> map review_text
          (filter (\<lambda>line. sanitize (name_field line) = sanitize b) store)]"
      by (rule fetch_restaurant_data_wellformed)+
    with that(2) show ?thesis
      by (intro exI [where x = "map review_text
          (filter (\<lambda>line. sanitize (name_field line) = sanitize b) store)"]) simp
  qed
  have one: "fetch_restaurant_data [entry] name =
      Inr [name \<mapsto> map review_text
        (filter (\<lambda>line. sanitize (name_field line) = sanitize name) [entry])]"
    if "CHR ''.'' \<in> set entry" for entry name
    using that by (intro fetch_restaurant_data_wellformed) simp
  have m1: "map review_text (filter (\<lambda>line. sanitize (name_field line) = sanitize ''subway'')
      [''Subway. Great food, average service.'']) = [''Great food, average service.'']"
    by code_simp
  have m2: "map review_text (filter (\<lambda>line. sanitize (name_field line) = sanitize ''SUBWAY'')
      [''Subway. Great food, average service.'']) = [''Great food, average service.'']"
    by code_simp
  have m3: "map review_text (filter (\<lambda>line. sanitize (name_field line) = sanitize ''subway'')
      [''Subway. Great food, average service.'' @ [CHR 0x0A]]) = [''Great food, average service.'']"
    by code_simp
  have m4: "map review_text (filter (\<lambda>line. sanitize (name_field line) = sanitize ''SUBWAY'')
      [''Subway. Great food, average service.'' @ [CHR 0x0A]]) = [''Great food, average service.'']"
    by code_simp
  have d1: "CHR ''.'' \<in> set ''Subway. Great food, average service.''"
    by simp
  have d2: "CHR ''.'' \<in> set (''Subway. Great food, average service.'' @ [CHR 0x0A])"
    by simp
  show ?thesis
    using general one [OF d1, of "''subway''"] one [OF d1, of "''SUBWAY''"]
      one [OF d2, of "''subway''"] one [OF d2, of "''SUBWAY''"]
    by (simp only: m1 m2 m3 m4) blast
qed

theorem fetch_restaurant_data_same_sanitized_name_witness:
  "\<exists>reviews.
     fetch_restaurant_data
       [''Cafe Luna. Good food, awful service.'' @ [CHR 0x0A],
        ''Subway. Great food, average service.'' @ [CHR 0x0A]] ''Cafe Luna'' =
       Inr [''Cafe Luna'' \<mapsto> reviews]
     \<and> fetch_restaurant_data
       [''Cafe Luna. Good food, awful service.'' @ [CHR 0x0A],
        ''Subway. Great food, average service.'' @ [CHR 0x0A]] ''cafe-luna?'' =
       Inr [''cafe-luna?'' \<mapsto> reviews]"
proof -
  have same: "sanitize ''Cafe Luna'' = sanitize ''cafe-luna?''"
    by code_simp
  have dots: "\<forall>line \<in> set [''Cafe Luna. Good food, awful service.'' @ [CHR 0x0A],
        ''Subway. Great food, average service.'' @ [CHR 0x0A]]. CHR ''.'' \<in> set line"
    by simp
  from fetch_restaurant_data_same_sanitized_name
    [of "[''Cafe Luna. Good food, awful service.'' @ [CHR 0x0A],
        ''Subway. Great food, average service.'' @ [CHR 0x0A]]" "''Cafe Luna''" "''cafe-luna?''"]
    same dots
  show ?thesis by blast
qed

section \<open>The claims about calculate_overall_score\<close>

text \<open>
  C3, as the specification states it, fails: for two empty lists the value in the
  returned mapping is not the float 0.0. The variable \<open>overall_score\<close> starts as the
  integer 0, the loop adds nothing to it, and \<open>round\<close> returns an integer as it is.
\<close>

theorem calculate_overall_score_empty_not_float:
  "calculate_overall_score ''X'' [] [] \<noteq> Inr [''X'' \<mapsto> PyFloat (Finite 0)]"
proof
  assume "calculate_overall_score ''X'' [] [] = Inr [''X'' \<mapsto> PyFloat (Finite 0)]"
  then have "[''X'' \<mapsto> PyInt 0] = [''X'' \<mapsto> PyFloat (Finite 0)]"
    by (simp add: calculate_overall_score_def round2_def)
  then have "[''X'' \<mapsto> PyInt 0] ''X'' = [''X'' \<mapsto> PyFloat (Finite 0)] ''X''"
    by (rule arg_cong)
  then show False by simp
qed

text \<open>
  C3, amended. For every restaurant name, when either score list is empty, so that \<open>N\<close>
  is 0, \<open>calculate_overall_score\<close> raises nothing (the loop body, and with it the
  division by \<open>N * sqrt(125)\<close>, is never evaluated) and returns the mapping from the name
  to the integer 0: the initial value of \<open>overall_score\<close>, which Python's \<open>==\<close> equates
  with the float 0.0 although it is not a float.
\<close>

theorem calculate_overall_score_empty:
  assumes "food_scores = [] \<or> customer_service_scores = []"
  shows "calculate_overall_score name food_scores customer_service_scores =
           Inr [name \<mapsto> PyInt 0]
         \<and> py_eq (PyInt 0) (PyFloat (Finite 0))"
proof -
  from assms have "min (length food_scores) (length customer_service_scores) = 0"
    by auto
  then show ?thesis
    by (simp add: calculate_overall_score_def round2_def py_eq_def)
qed

theorem calculate_overall_score_empty_witness:
  "calculate_overall_score ''X'' [] [3, 4] = Inr [''X'' \<mapsto> PyInt 0]
   \<and> py_eq (PyInt 0) (PyFloat (Finite 0))"
  using calculate_overall_score_empty [of "[]" "[3, 4]" "''X''"] by simp

text \<open>
  C1, as the specification states it, fails: it promises a mapping for every pair of
  integer lists, but with the food score 1 and the service score -1 the argument of
  \<open>math.sqrt\<close> is -1 and the call raises \<open>ValueError\<close>.
\<close>

theorem calculate_overall_score_negative_product:
  "calculate_overall_score ''X'' [1] [- 1] = Inl ValueError"
  by (simp add: calculate_overall_score_def loop_body_def index_def math_sqrt_def as_float_def
      float_of_int_def rnd_minus_1 fl_sqrt_def Let_def)

text \<open>
  C1, amended. Let \<open>N\<close> be the smaller of the two lengths. For every restaurant name and
  every pair of integer lists in which each of the first \<open>N\<close> products
  \<open>food\<^sub>i\<^sup>2 * service\<^sub>i\<close> is at least 0 and below \<open>2\<^sup>1\<^sup>0\<^sup>2\<^sup>4 - 2\<^sup>9\<^sup>7\<^sup>0\<close> (the integers that
  \<open>math.sqrt\<close> accepts), \<open>N\<close> being below that bound as well,
  \<open>calculate_overall_score\<close> returns the mapping from the given name to
  \<open>round(sum over i < N of sqrt(food\<^sub>i\<^sup>2 * service\<^sub>i) * (1 / (N * sqrt(125))) * 10, 2)\<close>,
  the sum taken in float arithmetic from the left. Only the first \<open>N\<close> elements of each
  list are used: the result is that of the call on the two lists cut to length \<open>N\<close>
  (this holds for all lists). And \<open>calculate_overall_score("X", [5], [5])\<close> returns the
  score 10.0 exactly.
\<close>

theorem calculate_overall_score_formula:
  assumes "\<forall>i < min (length food_scores) (length service_scores).
             0 \<le> (food_scores ! i) ^ 2 * service_scores ! i
             \<and> (food_scores ! i) ^ 2 * service_scores ! i < 2 ^ 1024 - 2 ^ 970"
    and "int (min (length food_scores) (length service_scores)) < 2 ^ 1024 - 2 ^ 970"
  shows "calculate_overall_score name food_scores service_scores =
           Inr [name \<mapsto> paired_score food_scores service_scores]
         \<and> calculate_overall_score name food_scores service_scores =
             calculate_overall_score name
               (take (min (length food_scores) (length service_scores)) food_scores)
               (take (min (length food_scores) (length service_scores)) service_scores)
         \<and> calculate_overall_score ''X'' [5] [5] = Inr [''X'' \<mapsto> PyFloat (Finite 10)]"
proof -
  have five: "calculate_overall_score ''X'' [5] [5] = Inr [''X'' \<mapsto> paired_score [5] [5]]"
    by (rule calculate_overall_score_in_range) simp_all
  from calculate_overall_score_in_range [OF assms]
    calculate_overall_score_take [of name food_scores service_scores] five
  show ?thesis
    by (simp only: paired_score_5_5)
qed

theorem calculate_overall_score_formula_witness:
  "calculate_overall_score ''Y'' [5, 3, 4] [5] = Inr [''Y'' \<mapsto> PyFloat (Finite 10)]
   \<and> calculate_overall_score ''Y'' [5, 3, 4] [5] = calculate_overall_score ''Y'' [5] [5]"
proof -
  have score: "paired_score [5, 3, 4] [5] = PyFloat (Finite 10)"
    by (simp add: paired_score_def contribution_1_5_5 fl_add_Finite rnd_10 fl_round2_10)
  have products: "\<forall>i < min (length [5, 3, 4 :: int]) (length [5 :: int]).
      0 \<le> ([5, 3, 4 :: int] ! i) ^ 2 * [5 :: int] ! i
      \<and> ([5, 3, 4 :: int] ! i) ^ 2 * [5 :: int] ! i < 2 ^ 1024 - 2 ^ 970"
    by simp
  have pairs: "int (min (length [5, 3, 4 :: int]) (length [5 :: int])) < 2 ^ 1024 - 2 ^ 970"
    by simp
  from calculate_overall_score_formula [OF products pairs, of "''Y''"]
  have a: "calculate_overall_score ''Y'' [5, 3, 4] [5] =
      Inr [''Y'' \<mapsto> paired_score [5, 3, 4] [5]]"
    and b: "calculate_overall_score ''Y'' [5, 3, 4] [5] =
      calculate_overall_score ''Y''
        (take (min (length [5, 3, 4 :: int]) (length [5 :: int])) [5, 3, 4])
        (take (min (length [5, 3, 4 :: int]) (length [5 :: int])) [5])"
    by blast+
  from a have "calculate_overall_score ''Y'' [5, 3, 4] [5] =
      Inr [''Y'' \<mapsto> PyFloat (Finite 10)]"
    unfolding score .
  moreover from b have "calculate_overall_score ''Y'' [5, 3, 4] [5] =
      calculate_overall_score ''Y'' [5] [5]"
    by simp
  ultimately show ?thesis by (rule conjI)
qed

end
